theory Spec2Isabelle
  imports Complex_Main "HOL-Library.AList"
begin

section \<open>Game constants\<close>

text \<open>
  The module-level settings of \<^verbatim>\<open>shoting_game.py\<close>. Python's unbounded integers are
  \<open>int\<close>; Python's floats are idealised as \<open>real\<close>, so every statement below about
  action values is a statement about the update computed in exact arithmetic.
\<close>

definition GRID_SIZE :: int where
  "GRID_SIZE = 10"

definition ACTIONS :: "string list" where
  "ACTIONS = [''UP'', ''DOWN'', ''LEFT'', ''RIGHT'', ''SHOOT'']"

definition LEARNING_RATE :: real where
  "LEARNING_RATE = 0.1"

definition DISCOUNT :: real where
  "DISCOUNT = 0.95"

definition EPSILON :: real where
  "EPSILON = 0.1"

definition WIN_SCORE :: int where
  "WIN_SCORE = 10"

section \<open>The Tank class\<close>

text \<open>
  A projectile is the two-element list \<^verbatim>\<open>[column, row]\<close>; every such list is created by
  \<^verbatim>\<open>shoot\<close> and held by exactly one tank, so it is modelled by value, as a pair.
  The fields \<^verbatim>\<open>x\<close> and \<^verbatim>\<open>y\<close> are named \<open>tank_x\<close> and \<open>tank_y\<close>.
\<close>

type_synonym bullet = "int \<times> int"

record tank =
  tank_x :: int
  tank_y :: int
  is_player :: bool
  color :: "int \<times> int \<times> int"
  bullets :: "bullet list"
  last_shot_time :: int

definition COOLDOWN_MS :: int where
  "COOLDOWN_MS = 1000"

definition Tank :: "int \<Rightarrow> int \<Rightarrow> bool \<Rightarrow> tank" where
  "Tank x0 y0 p =
     \<lparr> tank_x = x0, tank_y = y0, is_player = p,
       color = (if p then (0, 255, 0) else (255, 0, 0)),
       bullets = [], last_shot_time = 0 \<rparr>"

text \<open>
  \<^verbatim>\<open>move\<close> is four \<^verbatim>\<open>if\<close> statements in sequence (not an \<^verbatim>\<open>elif\<close> chain), each reading
  the tank as the previous one left it.
\<close>

definition move :: "string \<Rightarrow> tank \<Rightarrow> tank" where
  "move direction t =
     (let t1 = (if direction = ''UP'' \<and> tank_y t > 0
                then t\<lparr>tank_y := tank_y t - 1\<rparr> else t);
          t2 = (if direction = ''DOWN'' \<and> tank_y t1 < GRID_SIZE - 1
                then t1\<lparr>tank_y := tank_y t1 + 1\<rparr> else t1);
          t3 = (if direction = ''LEFT'' \<and> tank_x t2 > 0
                then t2\<lparr>tank_x := tank_x t2 - 1\<rparr> else t2);
          t4 = (if direction = ''RIGHT'' \<and> tank_x t3 < GRID_SIZE - 1
                then t3\<lparr>tank_x := tank_x t3 + 1\<rparr> else t3)
      in t4)"

text \<open>
  \<^verbatim>\<open>pygame.time.get_ticks()\<close> is the number of milliseconds since \<^verbatim>\<open>pygame.init()\<close>.
  Each read of the clock is an argument: \<^verbatim>\<open>shoot\<close> reads it once inside \<^verbatim>\<open>can_shoot\<close>
  and a second time when it stores the timestamp.
\<close>

definition can_shoot :: "int \<Rightarrow> tank \<Rightarrow> bool" where
  "can_shoot now t \<longleftrightarrow> now - last_shot_time t \<ge> COOLDOWN_MS"

definition shoot :: "int \<Rightarrow> int \<Rightarrow> tank \<Rightarrow> tank" where
  "shoot now1 now2 t =
     (if can_shoot now1 t
      then t\<lparr> bullets := bullets t @
                 [(tank_x t, if is_player t then tank_y t - 1 else tank_y t + 1)],
              last_shot_time := now2 \<rparr>
      else t)"

text \<open>
  \<^verbatim>\<open>update_bullets\<close>: the \<^verbatim>\<open>for\<close> loop adds \<open>-1\<close> or \<open>1\<close> to the row of every projectile,
  then the list comprehension keeps the projectiles with \<^verbatim>\<open>0 <= b[1] < GRID_SIZE\<close>.
\<close>

fun advance_rows :: "bool \<Rightarrow> bullet list \<Rightarrow> bullet list" where
  "advance_rows p [] = []"
| "advance_rows p (b # bs) = (fst b, snd b + (if p then - 1 else 1)) # advance_rows p bs"

definition on_grid :: "bullet \<Rightarrow> bool" where
  "on_grid b \<longleftrightarrow> 0 \<le> snd b \<and> snd b < GRID_SIZE"

definition update_bullets :: "tank \<Rightarrow> tank" where
  "update_bullets t =
     t\<lparr> bullets := filter on_grid (advance_rows (is_player t) (bullets t)) \<rparr>"

section \<open>The Q-learning agent\<close>

text \<open>
  A state key is the tuple \<^verbatim>\<open>(ai.x, ai.y, player.x, player.y)\<close>. The table is a dictionary
  from state keys to rows; a row is a dictionary from action names to values, kept as an
  association list in insertion order, because \<^verbatim>\<open>max\<close> over a dictionary resolves ties by
  that order. Every row is a fresh dictionary, so no two keys share one.
\<close>

type_synonym state = "int \<times> int \<times> int \<times> int"

type_synonym row = "(string \<times> real) list"

type_synonym q_table = "state \<Rightarrow> row option"

datatype error = KeyError | ValueError | IndexError

definition get_state :: "tank \<Rightarrow> tank \<Rightarrow> state" where
  "get_state a p = (tank_x a, tank_y a, tank_x p, tank_y p)"

text \<open>
  Python's \<^verbatim>\<open>max\<close> raises \<^verbatim>\<open>ValueError\<close> on an empty iterable and otherwise keeps the first
  maximal item: the running best is replaced only by a strictly greater one.
  \<open>py_max\<close> is \<^verbatim>\<open>max(row.values())\<close>; \<open>py_max_key\<close> is \<^verbatim>\<open>max(row, key=row.get)\<close>, which walks
  the keys of the row in order and compares the values stored under them.
\<close>

fun py_max :: "real list \<Rightarrow> error + real" where
  "py_max [] = Inl ValueError"
| "py_max (v # vs) = Inr (foldl (\<lambda>best w. if w > best then w else best) v vs)"

fun py_max_key :: "row \<Rightarrow> error + string" where
  "py_max_key [] = Inl ValueError"
| "py_max_key (kv # kvs) =
     Inr (fst (foldl (\<lambda>best kw. if snd kw > snd best then kw else best) kv kvs))"

text \<open>
  \<^verbatim>\<open>random.random()\<close> and \<^verbatim>\<open>random.choice\<close> draw from the generator; the two draws are
  arguments. \<open>u\<close> is the float in \<open>[0, 1)\<close> returned by \<^verbatim>\<open>random.random()\<close>; \<open>i\<close> is the raw
  draw that \<^verbatim>\<open>random.choice\<close> reduces to an index below the length of the sequence.
\<close>

definition random_choice :: "'a list \<Rightarrow> nat \<Rightarrow> error + 'a" where
  "random_choice xs i = (if xs = [] then Inl IndexError else Inr (xs ! (i mod length xs)))"

text \<open>
  The methods of the agent take the table and return it with their result, so that what
  they do to the table is part of their value.
\<close>

definition choose_action :: "state \<Rightarrow> real \<Rightarrow> nat \<Rightarrow> q_table \<Rightarrow> error + (string \<times> q_table)" where
  "choose_action st u i q =
     (if u < EPSILON \<or> q st = None
      then (case random_choice ACTIONS i of Inl e \<Rightarrow> Inl e | Inr a \<Rightarrow> Inr (a, q))
      else (case q st of
              None \<Rightarrow> Inl KeyError
            | Some r \<Rightarrow> (case py_max_key r of Inl e \<Rightarrow> Inl e | Inr a \<Rightarrow> Inr (a, q))))"

definition zero_row :: row where
  "zero_row = map (\<lambda>a. (a, 0)) ACTIONS"

definition ensure_row :: "state \<Rightarrow> q_table \<Rightarrow> q_table" where
  "ensure_row s q = (if q s = None then q(s \<mapsto> zero_row) else q)"

text \<open>
  \<^verbatim>\<open>learn\<close> with the learning rate as a parameter; the source fixes it to the module
  setting \<open>LEARNING_RATE\<close>. Reading a missing key of a dictionary raises \<^verbatim>\<open>KeyError\<close>;
  assigning to a key of a row keeps the position of a key that is there and appends a new one
  (\<open>AList.update\<close>).
\<close>

definition learn_with :: "real \<Rightarrow> state \<Rightarrow> string \<Rightarrow> real \<Rightarrow> state \<Rightarrow> q_table \<Rightarrow> error + q_table" where
  "learn_with alpha old_s action reward new_s q =
     (let q1 = ensure_row new_s (ensure_row old_s q) in
      case q1 old_s of
        None \<Rightarrow> Inl KeyError
      | Some row_old \<Rightarrow>
         (case map_of row_old action of
            None \<Rightarrow> Inl KeyError
          | Some old_q \<Rightarrow>
             (case q1 new_s of
                None \<Rightarrow> Inl KeyError
              | Some row_new \<Rightarrow>
                 (case py_max (map snd row_new) of
                    Inl e \<Rightarrow> Inl e
                  | Inr future_q \<Rightarrow>
                      let updated_q = old_q + alpha * (reward + DISCOUNT * future_q - old_q)
                      in Inr (q1(old_s \<mapsto> AList.update action updated_q row_old))))))"

definition learn :: "state \<Rightarrow> string \<Rightarrow> real \<Rightarrow> state \<Rightarrow> q_table \<Rightarrow> error + q_table" where
  "learn = learn_with LEARNING_RATE"

section \<open>The main loop\<close>

text \<open>
  What one iteration of \<^verbatim>\<open>while run\<close> reads from outside: the event queue, the pressed keys,
  the clock reads of the two possible \<^verbatim>\<open>shoot\<close> calls and the two random draws.
  Drawing on the window, the frame clock and the delay after a win change none of the
  variables below and are left out.
\<close>

datatype event = QUIT | OtherEvent

record frame_input =
  events :: "event list"
  k_left :: bool
  k_right :: bool
  k_up :: bool
  k_down :: bool
  k_space :: bool
  player_ticks :: "int \<times> int"
  ai_ticks :: "int \<times> int"
  rnd :: real
  pick :: nat

record game =
  player :: tank
  ai :: tank
  player_pts :: int
  ai_pts :: int
  run :: bool
  agent :: q_table

definition initial_game :: game where
  "initial_game =
     \<lparr> player = Tank 5 9 True, ai = Tank 5 0 False,
       player_pts = 0, ai_pts = 0, run = True, agent = Map.empty \<rparr>"

definition process_events :: "frame_input \<Rightarrow> game \<Rightarrow> game" where
  "process_events inp g = (if QUIT \<in> set (events inp) then g\<lparr>run := False\<rparr> else g)"

definition player_input :: "frame_input \<Rightarrow> game \<Rightarrow> game" where
  "player_input inp g =
     (let p1 = (if k_left inp then move ''LEFT'' (player g) else player g);
          p2 = (if k_right inp then move ''RIGHT'' p1 else p1);
          p3 = (if k_up inp then move ''UP'' p2 else p2);
          p4 = (if k_down inp then move ''DOWN'' p3 else p3);
          p5 = (if k_space inp
                then shoot (fst (player_ticks inp)) (snd (player_ticks inp)) p4 else p4)
      in g\<lparr>player := p5\<rparr>)"

text \<open>The AI decision returns the state key and the action with the game: the learning
  step of the same iteration uses both.\<close>

definition ai_decision :: "frame_input \<Rightarrow> game \<Rightarrow> error + (state \<times> string \<times> game)" where
  "ai_decision inp g =
     (let st = get_state (ai g) (player g) in
      case choose_action st (rnd inp) (pick inp) (agent g) of
        Inl e \<Rightarrow> Inl e
      | Inr (action, q) \<Rightarrow>
          let a1 = (if action \<in> {''UP'', ''DOWN'', ''LEFT'', ''RIGHT''}
                    then move action (ai g) else ai g);
              a2 = (if action = ''SHOOT''
                    then shoot (fst (ai_ticks inp)) (snd (ai_ticks inp)) a1 else a1)
          in Inr (st, action, g\<lparr>ai := a2, agent := q\<rparr>))"

definition update_phase :: "game \<Rightarrow> game" where
  "update_phase g =
     (let g1 = g\<lparr>player := update_bullets (player g)\<rparr>
      in g1\<lparr>ai := update_bullets (ai g1)\<rparr>)"

text \<open>
  One hit loop: \<open>hit_scan\<close> walks the copy \<^verbatim>\<open>bullets[:]\<close>; at the first projectile on the
  target's cell it removes from the list the first element equal to it
  (\<^verbatim>\<open>list.remove\<close>), adds one to the score and breaks.
\<close>

fun hit_scan :: "bullet list \<Rightarrow> int \<Rightarrow> int \<Rightarrow> bullet list \<Rightarrow> int \<Rightarrow> bullet list \<times> int" where
  "hit_scan [] px py bs pts = (bs, pts)"
| "hit_scan (b # rest) px py bs pts =
     (if fst b = px \<and> snd b = py then (remove1 b bs, pts + 1)
      else hit_scan rest px py bs pts)"

definition hit_loop :: "bullet list \<Rightarrow> tank \<Rightarrow> int \<Rightarrow> bullet list \<times> int" where
  "hit_loop bs target pts = hit_scan bs (tank_x target) (tank_y target) bs pts"

definition hit_detection :: "game \<Rightarrow> game" where
  "hit_detection g =
     (let (ab, apts) = hit_loop (bullets (ai g)) (player g) (ai_pts g);
          g1 = g\<lparr>ai := (ai g)\<lparr>bullets := ab\<rparr>, ai_pts := apts\<rparr>;
          (pb, ppts) = hit_loop (bullets (player g1)) (ai g1) (player_pts g1)
      in g1\<lparr>player := (player g1)\<lparr>bullets := pb\<rparr>, player_pts := ppts\<rparr>)"

definition learn_phase :: "state \<Rightarrow> string \<Rightarrow> game \<Rightarrow> error + game" where
  "learn_phase st action g =
     (case learn st action 0 (get_state (ai g) (player g)) (agent g) of
        Inl e \<Rightarrow> Inl e
      | Inr q \<Rightarrow> Inr (g\<lparr>agent := q\<rparr>))"

definition win_check :: "game \<Rightarrow> game" where
  "win_check g =
     (if player_pts g \<ge> WIN_SCORE \<or> ai_pts g \<ge> WIN_SCORE then g\<lparr>run := False\<rparr> else g)"

text \<open>
  One iteration of the loop. \<open>before_hits\<close> is the iteration up to and including the two
  \<^verbatim>\<open>update_bullets\<close> calls: events, player input, AI decision, projectile update; it
  yields the game on which hit detection runs. \<open>frame\<close> continues with hit detection, the
  learning step and the win check.
\<close>

definition before_hits :: "frame_input \<Rightarrow> game \<Rightarrow> error + (state \<times> string \<times> game)" where
  "before_hits inp g =
     (case ai_decision inp (player_input inp (process_events inp g)) of
        Inl e \<Rightarrow> Inl e
      | Inr (st, action, g1) \<Rightarrow> Inr (st, action, update_phase g1))"

definition frame :: "frame_input \<Rightarrow> game \<Rightarrow> error + game" where
  "frame inp g =
     (case before_hits inp g of
        Inl e \<Rightarrow> Inl e
      | Inr (st, action, g1) \<Rightarrow>
         (case learn_phase st action (hit_detection g1) of
            Inl e \<Rightarrow> Inl e
          | Inr g2 \<Rightarrow> Inr (win_check g2)))"

text \<open>
  The \<^verbatim>\<open>while run\<close> loop over the inputs of the iterations to come: it runs one frame per
  element for as long as \<open>run\<close> holds, and counts the frames it ran. The list running out
  stands for the observation ending; an exception ends the loop with the error.
\<close>

fun game_loop :: "frame_input list \<Rightarrow> game \<Rightarrow> nat \<Rightarrow> error + (game \<times> nat)" where
  "game_loop [] g n = Inr (g, n)"
| "game_loop (inp # inps) g n =
     (if run g
      then (case frame inp g of
              Inl e \<Rightarrow> Inl e
            | Inr g' \<Rightarrow> game_loop inps g' (Suc n))
      else Inr (g, n))"

definition main :: "frame_input list \<Rightarrow> error + (game \<times> nat)" where
  "main inps = game_loop inps initial_game 0"

section \<open>Notions used in the statements\<close>

text \<open>
  Cells of the grid: \<open>in_grid\<close> is membership of both coordinates in
  \<open>[0, GRID_SIZE - 1]\<close>, \<open>neighbour\<close> the cell one step away in a direction, and
  \<open>row_step\<close> the row direction towards the opponent's side (up for the player).
\<close>

definition in_grid :: "int \<times> int \<Rightarrow> bool" where
  "in_grid c \<longleftrightarrow>
     0 \<le> fst c \<and> fst c \<le> GRID_SIZE - 1 \<and> 0 \<le> snd c \<and> snd c \<le> GRID_SIZE - 1"

definition position :: "tank \<Rightarrow> int \<times> int" where
  "position t = (tank_x t, tank_y t)"

definition neighbour :: "string \<Rightarrow> int \<times> int \<Rightarrow> int \<times> int" where
  "neighbour direction c =
     (if direction = ''UP'' then (fst c, snd c - 1)
      else if direction = ''DOWN'' then (fst c, snd c + 1)
      else if direction = ''LEFT'' then (fst c - 1, snd c)
      else if direction = ''RIGHT'' then (fst c + 1, snd c)
      else c)"

definition row_step :: "tank \<Rightarrow> int" where
  "row_step t = (if is_player t then - 1 else 1)"

text \<open>
  A tank that has never fired holds no projectile and still has the timestamp \<open>0\<close> it was
  created with. A frame is \<open>early\<close> when the clock reads of its two possible \<^verbatim>\<open>can_shoot\<close>
  calls are below the cooldown.
\<close>

definition never_fired :: "tank \<Rightarrow> bool" where
  "never_fired t \<longleftrightarrow> bullets t = [] \<and> last_shot_time t = 0"

definition early :: "frame_input \<Rightarrow> bool" where
  "early inp \<longleftrightarrow> fst (player_ticks inp) < COOLDOWN_MS \<and> fst (ai_ticks inp) < COOLDOWN_MS"

text \<open>
  The input of a frame with an empty event queue and no direction key pressed: the space
  key as given, every clock read the same, and the two random draws as given.
\<close>

definition quiet_input :: "bool \<Rightarrow> int \<Rightarrow> real \<Rightarrow> nat \<Rightarrow> frame_input" where
  "quiet_input space now u i =
     \<lparr> events = [], k_left = False, k_right = False, k_up = False, k_down = False,
       k_space = space, player_ticks = (now, now), ai_ticks = (now, now), rnd = u, pick = i \<rparr>"

subsection \<open>Well-formed tables and the value read from a table\<close>

text \<open>
  Every row that \<^verbatim>\<open>learn\<close> creates has the five actions as its keys, in the order of
  \<open>ACTIONS\<close>, and an assignment to one of these keys keeps them. \<open>qval\<close> reads the value of an
  action in a state, \<open>0\<close> where the state has no row yet: the value its row will be
  created with.
\<close>

definition wf_table :: "q_table \<Rightarrow> bool" where
  "wf_table q \<longleftrightarrow> (\<forall>s r. q s = Some r \<longrightarrow> map fst r = ACTIONS)"

definition qval :: "q_table \<Rightarrow> state \<Rightarrow> string \<Rightarrow> real" where
  "qval q s a =
     (case q s of
        None \<Rightarrow> 0
      | Some r \<Rightarrow> (case map_of r a of None \<Rightarrow> 0 | Some v \<Rightarrow> v))"

definition max_qval :: "q_table \<Rightarrow> state \<Rightarrow> real" where
  "max_qval q s = Max ((qval q s) ` set ACTIONS)"


section \<open>Movement\<close>

lemma move_cases:
  "move d t =
     (if d = ''UP'' then (if tank_y t > 0 then t\<lparr>tank_y := tank_y t - 1\<rparr> else t)
      else if d = ''DOWN'' then (if tank_y t < GRID_SIZE - 1 then t\<lparr>tank_y := tank_y t + 1\<rparr> else t)
      else if d = ''LEFT'' then (if tank_x t > 0 then t\<lparr>tank_x := tank_x t - 1\<rparr> else t)
      else if d = ''RIGHT'' then (if tank_x t < GRID_SIZE - 1 then t\<lparr>tank_x := tank_x t + 1\<rparr> else t)
      else t)"
  by (simp add: move_def)

text \<open>
  Claim C3. For a tank on the grid and each of the four directions, \<open>move\<close> puts the tank
  on the neighbouring cell in that direction exactly when that cell is on the grid, and
  otherwise returns the tank as it was; \<open>move\<close> is a total function, so nothing is raised.
  Whatever the direction string, the tank is on the grid afterwards.
\<close>

theorem C3_move:
  assumes "in_grid (position t)"
  shows "(d \<in> {''UP'', ''DOWN'', ''LEFT'', ''RIGHT''} \<longrightarrow>
            move d t =
              (if in_grid (neighbour d (position t))
               then t\<lparr>tank_x := fst (neighbour d (position t)),
                      tank_y := snd (neighbour d (position t))\<rparr>
               else t))
         \<and> in_grid (position (move d t))"
  using assms
  by (auto simp add: move_cases in_grid_def position_def neighbour_def GRID_SIZE_def)

theorem C3_move_witness:
  "in_grid (position (Tank 5 9 True))
   \<and> position (move ''UP'' (Tank 5 9 True)) = (5, 8)
   \<and> move ''DOWN'' (Tank 5 9 True) = Tank 5 9 True
   \<and> in_grid (position (move ''DOWN'' (Tank 5 9 True)))"
  using C3_move [of "Tank 5 9 True" "''UP''"] C3_move [of "Tank 5 9 True" "''DOWN''"]
  by (simp add: in_grid_def position_def neighbour_def GRID_SIZE_def Tank_def)

section \<open>Shooting and the cooldown\<close>

text \<open>
  Claim C4. When the clock read by \<open>can_shoot\<close> is at least \<open>COOLDOWN_MS\<close> past the last-shot
  timestamp, \<open>shoot\<close> appends one projectile in the tank's column, one row towards the
  opponent's side, and stores the second clock read as the timestamp; when it is less,
  \<open>shoot\<close> returns the tank unchanged. Two calls, the second begun less than
  \<open>COOLDOWN_MS\<close> after the first on a clock that does not run backwards, add at most one
  projectile.
\<close>

theorem C4_shoot:
  "(COOLDOWN_MS \<le> now1 - last_shot_time t \<longrightarrow>
      shoot now1 now2 t =
        t\<lparr> bullets := bullets t @ [(tank_x t, tank_y t + row_step t)],
           last_shot_time := now2 \<rparr>)
   \<and> (now1 - last_shot_time t < COOLDOWN_MS \<longrightarrow> shoot now1 now2 t = t)
   \<and> (now1 \<le> now2 \<and> now3 - now1 < COOLDOWN_MS \<longrightarrow>
        length (bullets (shoot now3 now4 (shoot now1 now2 t))) \<le> length (bullets t) + 1)"
  by (simp add: shoot_def can_shoot_def row_step_def)

theorem C4_shoot_witness:
  "bullets (shoot 1500 1501 (Tank 5 9 True)) = [(5, 8)]
   \<and> last_shot_time (shoot 1500 1501 (Tank 5 9 True)) = 1501
   \<and> bullets (update_bullets (shoot 1500 1501 (Tank 5 9 True))) = [(5, 7)]
   \<and> shoot 999 999 (Tank 5 0 False) = Tank 5 0 False
   \<and> bullets (shoot 2400 2400 (shoot 1500 1501 (Tank 5 9 True))) = [(5, 8)]
   \<and> length (bullets (shoot 2400 2400 (shoot 1500 1501 (Tank 5 9 True)))) \<le> length (bullets (Tank 5 9 True)) + 1"
  using C4_shoot [of 1500 "Tank 5 9 True" 1501 2400 2400]
        C4_shoot [of 999 "Tank 5 0 False" 999 999 999]
  by (simp add: shoot_def can_shoot_def row_step_def Tank_def COOLDOWN_MS_def update_bullets_def on_grid_def GRID_SIZE_def)

section \<open>Advancing the projectiles\<close>

lemma advance_rows_map:
  "advance_rows p bs = map (\<lambda>b. (fst b, snd b + (if p then - 1 else 1))) bs"
  by (induction bs) simp_all

lemma count_list_filter_map_shift:
  fixes d :: int
  shows "count_list (filter P (map (\<lambda>b. (fst b, snd b + d)) bs)) (fst c, snd c + d) =
         (if P (fst c, snd c + d) then count_list bs c else 0)"
proof (induction bs)
  case Nil
  show ?case by simp
next
  case (Cons b bs)
  have "((fst b, snd b + d) = (fst c, snd c + d)) = (b = c)"
    by (cases b, cases c) simp
  with Cons show ?case by simp
qed

text \<open>
  Claim C5. \<open>update_bullets\<close> changes only the projectile list: every projectile keeps its
  column and moves one row towards the opposing edge, and the result holds, in the same order,
  exactly the moved projectiles whose row is in \<open>[0, GRID_SIZE - 1]\<close>. Every projectile of
  the result is in range, and a moved projectile occurs in the result as often as the
  original did if its new row is in range and not at all otherwise.
\<close>

theorem C5_update_bullets:
  "update_bullets t =
     t\<lparr> bullets := filter (\<lambda>b. 0 \<le> snd b \<and> snd b \<le> GRID_SIZE - 1)
                      (map (\<lambda>b. (fst b, snd b + row_step t)) (bullets t)) \<rparr>
   \<and> (\<forall>b \<in> set (bullets (update_bullets t)). 0 \<le> snd b \<and> snd b \<le> GRID_SIZE - 1)
   \<and> (\<forall>b. count_list (bullets (update_bullets t)) (fst b, snd b + row_step t) =
           (if 0 \<le> snd b + row_step t \<and> snd b + row_step t \<le> GRID_SIZE - 1
            then count_list (bullets t) b else 0))"
proof -
  have grid: "on_grid = (\<lambda>b. 0 \<le> snd b \<and> snd b \<le> GRID_SIZE - 1)"
    by (auto simp add: on_grid_def fun_eq_iff)
  have eq: "bullets (update_bullets t) =
      filter (\<lambda>b. 0 \<le> snd b \<and> snd b \<le> GRID_SIZE - 1)
        (map (\<lambda>b. (fst b, snd b + row_step t)) (bullets t))"
    by (simp add: update_bullets_def advance_rows_map row_step_def grid)
  have whole: "update_bullets t =
      t\<lparr> bullets := filter (\<lambda>b. 0 \<le> snd b \<and> snd b \<le> GRID_SIZE - 1)
                       (map (\<lambda>b. (fst b, snd b + row_step t)) (bullets t)) \<rparr>"
    by (simp add: update_bullets_def advance_rows_map row_step_def grid)
  have inside: "\<forall>b \<in> set (bullets (update_bullets t)). 0 \<le> snd b \<and> snd b \<le> GRID_SIZE - 1"
    by (simp add: eq)
  have counts: "\<forall>b. count_list (bullets (update_bullets t)) (fst b, snd b + row_step t) =
           (if 0 \<le> snd b + row_step t \<and> snd b + row_step t \<le> GRID_SIZE - 1
            then count_list (bullets t) b else 0)"
    unfolding eq by (simp add: count_list_filter_map_shift)
  show ?thesis by (rule conjI [OF whole conjI [OF inside counts]])
qed

theorem C5_update_bullets_witness:
  "bullets (update_bullets ((Tank 5 9 True)\<lparr>bullets := [(5, 8), (2, 0), (7, 1)]\<rparr>)) = [(5, 7), (7, 0)]
   \<and> bullets (update_bullets ((Tank 5 0 False)\<lparr>bullets := [(5, 9), (1, 3)]\<rparr>)) = [(1, 4)]"
  using C5_update_bullets [of "(Tank 5 9 True)\<lparr>bullets := [(5, 8), (2, 0), (7, 1)]\<rparr>"]
        C5_update_bullets [of "(Tank 5 0 False)\<lparr>bullets := [(5, 9), (1, 3)]\<rparr>"]
  by (simp add: row_step_def Tank_def GRID_SIZE_def)

section \<open>The learning update\<close>

lemma wf_row_shape:
  assumes "map fst r = ACTIONS"
  obtains v1 v2 v3 v4 v5 where
    "r = [(''UP'', v1), (''DOWN'', v2), (''LEFT'', v3), (''RIGHT'', v4), (''SHOOT'', v5)]"
  using assms unfolding ACTIONS_def
  by (auto simp add: map_eq_Cons_conv)

lemma wf_row_lookup:
  assumes "map fst r = ACTIONS" and "a \<in> set ACTIONS"
  shows "\<exists>v. map_of r a = Some v"
proof -
  from assms have "a \<in> fst ` set r"
    by (metis set_map)
  then show ?thesis
    by (metis domD dom_map_of_conv_image_fst)
qed

lemma foldl_running_max:
  fixes v :: real
  shows "foldl (\<lambda>best w. if w > best then w else best) v vs = Max (set (v # vs))"
proof (induction vs arbitrary: v)
  case Nil
  show ?case by simp
next
  case (Cons w ws)
  have "Max (set ((if v < w then w else v) # ws)) = Max (set (v # w # ws))"
  proof (cases ws)
    case Nil
    then show ?thesis by (simp add: max_def)
  next
    case (Cons z zs)
    then show ?thesis by (simp add: max_def)
  qed
  with Cons.IH show ?case by simp
qed

lemma py_max_Max:
  assumes "vs \<noteq> []"
  shows "py_max vs = Inr (Max (set vs))"
  using assms by (cases vs) (simp_all add: foldl_running_max del: set_simps)

lemma wf_row_values:
  assumes "map fst r = ACTIONS"
  shows "set (map snd r) = (\<lambda>a. case map_of r a of None \<Rightarrow> 0 | Some v \<Rightarrow> v) ` set ACTIONS"
proof -
  from assms obtain v1 v2 v3 v4 v5 where
    "r = [(''UP'', v1), (''DOWN'', v2), (''LEFT'', v3), (''RIGHT'', v4), (''SHOOT'', v5)]"
    by (rule wf_row_shape)
  then show ?thesis by (simp add: ACTIONS_def)
qed

lemma wf_tableD: "wf_table q \<Longrightarrow> q s = Some r \<Longrightarrow> map fst r = ACTIONS"
  unfolding wf_table_def by blast

lemma wf_tableI: "(\<And>s r. q s = Some r \<Longrightarrow> map fst r = ACTIONS) \<Longrightarrow> wf_table q"
  unfolding wf_table_def by blast

lemma wf_table_empty: "wf_table Map.empty"
  by (simp add: wf_table_def)

lemma zero_row_keys: "map fst zero_row = ACTIONS"
  by (simp add: zero_row_def comp_def)

lemma map_of_zero_row: "map_of zero_row b = (if b \<in> set ACTIONS then Some 0 else None)"
  by (simp add: zero_row_def ACTIONS_def)

lemma wf_table_ensure_row: "wf_table q \<Longrightarrow> wf_table (ensure_row s q)"
  by (rule wf_tableI) (auto simp add: ensure_row_def zero_row_keys split: if_splits dest: wf_tableD)

lemma qval_ensure_row: "qval (ensure_row s q) k b = qval q k b"
  by (simp add: qval_def ensure_row_def map_of_zero_row)

lemma ensure_row_present: "\<exists>r. ensure_row s q s = Some r"
  by (cases "q s") (simp_all add: ensure_row_def)

lemma ensure_row_keeps: "q k = Some r \<Longrightarrow> ensure_row s q k = Some r"
  by (auto simp add: ensure_row_def)

lemma ensure_row_apply:
  "ensure_row s q k = (if k = s \<and> q k = None then Some zero_row else q k)"
  by (auto simp add: ensure_row_def)

lemma wf_max_qval:
  assumes "wf_table q" and "q s = Some r"
  shows "py_max (map snd r) = Inr (max_qval q s)"
proof -
  from assms have keys: "map fst r = ACTIONS"
    by (rule wf_tableD)
  then have "r \<noteq> []"
    by (auto simp add: ACTIONS_def)
  then have "py_max (map snd r) = Inr (Max (set (map snd r)))"
    by (simp add: py_max_Max)
  also have "set (map snd r) = (qval q s) ` set ACTIONS"
    using wf_row_values [OF keys] assms(2) by (simp add: qval_def)
  finally show ?thesis by (simp add: max_qval_def)
qed

lemma learn_with_wf:
  fixes s s' :: state and q :: q_table and alpha rw :: real and a :: string
  assumes wf: "wf_table q" and act: "a \<in> set ACTIONS"
  defines "q1 \<equiv> ensure_row s' (ensure_row s q)"
  defines "v \<equiv> qval q s a + alpha * (rw + DISCOUNT * max_qval q s' - qval q s a)"
  shows "\<exists>r. q1 s = Some r \<and> map fst r = ACTIONS \<and>
           learn_with alpha s a rw s' q = Inr (q1(s \<mapsto> AList.update a v r))"
proof -
  have wf1: "wf_table q1"
    unfolding q1_def by (intro wf_table_ensure_row wf)
  have q1val: "qval q1 k b = qval q k b" for k b
    unfolding q1_def by (simp add: qval_ensure_row)
  obtain r where r: "q1 s = Some r"
    unfolding q1_def using ensure_row_present [of s q] ensure_row_keeps by blast
  obtain r' where r': "q1 s' = Some r'"
    unfolding q1_def using ensure_row_present by blast
  from wf1 r have keys: "map fst r = ACTIONS"
    by (rule wf_tableD)
  from wf_row_lookup [OF keys act] obtain old_q where old: "map_of r a = Some old_q"
    by blast
  have old_q: "old_q = qval q s a"
    using q1val [of s a] r old by (simp add: qval_def)
  have "py_max (map snd r') = Inr (max_qval q1 s')"
    by (rule wf_max_qval [OF wf1 r'])
  also have "max_qval q1 s' = max_qval q s'"
    by (simp add: max_qval_def q1val)
  finally have fut: "py_max (map snd r') = Inr (max_qval q s')" .
  have "learn_with alpha s a rw s' q = Inr (q1(s \<mapsto> AList.update a v r))"
    unfolding learn_with_def q1_def [symmetric]
    by (simp add: Let_def r r' old fut old_q v_def)
  with r keys show ?thesis by blast
qed

lemma dom_ensure_row: "dom (ensure_row s q) = insert s (dom q)"
  by (auto simp add: ensure_row_def split: if_splits)

lemma qval_update_row:
  assumes "q s = Some r"
  shows "qval (q(s \<mapsto> AList.update a v r)) k b =
           (if k = s \<and> b = a then v else qval q k b)"
  using assms by (simp add: qval_def AList.update_conv')

lemma learn_with_result:
  fixes s s' :: state and q :: q_table and alpha rw :: real and a :: string
  assumes wf: "wf_table q" and act: "a \<in> set ACTIONS"
  shows "\<exists>q'. learn_with alpha s a rw s' q = Inr q'
           \<and> wf_table q'
           \<and> dom q' = dom q \<union> {s, s'}
           \<and> (\<forall>k. k \<noteq> s \<longrightarrow> q' k = (if k = s' \<and> q k = None then Some zero_row else q k))
           \<and> (\<forall>k b. qval q' k b =
                 (if k = s \<and> b = a
                  then qval q s a + alpha * (rw + DISCOUNT * max_qval q s' - qval q s a)
                  else qval q k b))"
proof -
  define q1 where "q1 = ensure_row s' (ensure_row s q)"
  define v where "v = qval q s a + alpha * (rw + DISCOUNT * max_qval q s' - qval q s a)"
  from learn_with_wf [OF wf act, of s' s alpha rw]
  obtain r where r: "q1 s = Some r" and keys: "map fst r = ACTIONS"
    and res: "learn_with alpha s a rw s' q = Inr (q1(s \<mapsto> AList.update a v r))"
    unfolding q1_def v_def by blast
  let ?q' = "q1(s \<mapsto> AList.update a v r)"
  have wf1: "wf_table q1"
    unfolding q1_def by (intro wf_table_ensure_row wf)
  have "a \<in> set (map fst r)"
    using act keys by simp
  then have "map fst (AList.update a v r) = ACTIONS"
    using keys by (simp add: AList.update_keys)
  then have wf': "wf_table ?q'"
    using wf1 by (intro wf_tableI) (auto split: if_splits dest: wf_tableD)
  have dom': "dom ?q' = dom q \<union> {s, s'}"
    unfolding q1_def by (auto simp add: dom_ensure_row)
  have rest: "\<forall>k. k \<noteq> s \<longrightarrow> ?q' k = (if k = s' \<and> q k = None then Some zero_row else q k)"
  proof (intro allI impI)
    fix k :: state
    assume "k \<noteq> s"
    then show "?q' k = (if k = s' \<and> q k = None then Some zero_row else q k)"
      unfolding q1_def by (auto simp add: ensure_row_apply)
  qed
  have "qval q1 k b = qval q k b" for k b
    unfolding q1_def by (simp add: qval_ensure_row)
  then have vals: "\<forall>k b. qval ?q' k b = (if k = s \<and> b = a then v else qval q k b)"
    using qval_update_row [of q1 s r a v] r by simp
  from res wf' dom' rest vals show ?thesis
    unfolding v_def by blast
qed






section \<open>Choosing an action\<close>

text \<open>The running best of \<^verbatim>\<open>max\<close> is an item of the list, the first one of maximal value.\<close>

lemma foldl_best_in:
  "foldl (\<lambda>best kw. if snd kw > snd best then kw else best) kv kvs \<in> set (kv # kvs)"
  for kv :: "'a \<times> real"
proof (induction kvs arbitrary: kv)
  case Nil
  show ?case by simp
next
  case (Cons x xs)
  show ?case
    using Cons.IH [of "if snd x > snd kv then x else kv"] by (auto split: if_splits)
qed

lemma foldl_best_first:
  fixes kv :: "'a \<times> real"
  shows "\<exists>k < length (kv # kvs).
           foldl (\<lambda>best kw. if snd kw > snd best then kw else best) kv kvs = (kv # kvs) ! k
           \<and> (\<forall>j < length (kv # kvs). snd ((kv # kvs) ! j) \<le> snd ((kv # kvs) ! k))
           \<and> (\<forall>j < k. snd ((kv # kvs) ! j) < snd ((kv # kvs) ! k))"
proof (induction kvs arbitrary: kv)
  case Nil
  show ?case by simp
next
  case (Cons x xs)
  let ?f = "\<lambda>best kw :: 'a \<times> real. if snd kw > snd best then kw else best"
  show ?case
  proof (cases "snd x > snd kv")
    case True
    from Cons.IH [of x] obtain k where k: "k < length (x # xs)"
      and res: "foldl ?f x xs = (x # xs) ! k"
      and ge: "\<forall>j < length (x # xs). snd ((x # xs) ! j) \<le> snd ((x # xs) ! k)"
      and gt: "\<forall>j < k. snd ((x # xs) ! j) < snd ((x # xs) ! k)"
      by blast
    from ge have x_le: "snd x \<le> snd ((x # xs) ! k)"
      by (metis length_Cons nth_Cons_0 zero_less_Suc)
    have "Suc k < length (kv # x # xs)" using k by simp
    moreover have "foldl ?f kv (x # xs) = (kv # x # xs) ! Suc k"
      using True res by simp
    moreover have "\<forall>j < length (kv # x # xs). snd ((kv # x # xs) ! j) \<le> snd ((kv # x # xs) ! Suc k)"
    proof (intro allI impI)
      fix j assume "j < length (kv # x # xs)"
      then show "snd ((kv # x # xs) ! j) \<le> snd ((kv # x # xs) ! Suc k)"
        using ge x_le True by (cases j) auto
    qed
    moreover have "\<forall>j < Suc k. snd ((kv # x # xs) ! j) < snd ((kv # x # xs) ! Suc k)"
    proof (intro allI impI)
      fix j assume "j < Suc k"
      then show "snd ((kv # x # xs) ! j) < snd ((kv # x # xs) ! Suc k)"
        using gt x_le True by (cases j) auto
    qed
    ultimately show ?thesis by blast
  next
    case False
    from Cons.IH [of kv] obtain k where k: "k < length (kv # xs)"
      and res: "foldl ?f kv xs = (kv # xs) ! k"
      and ge: "\<forall>j < length (kv # xs). snd ((kv # xs) ! j) \<le> snd ((kv # xs) ! k)"
      and gt: "\<forall>j < k. snd ((kv # xs) ! j) < snd ((kv # xs) ! k)"
      by blast
    from ge have kv_le: "snd kv \<le> snd ((kv # xs) ! k)"
      by (metis length_Cons nth_Cons_0 zero_less_Suc)
    show ?thesis
    proof (cases k)
      case 0
      have "0 < length (kv # x # xs)" by simp
      moreover have "foldl ?f kv (x # xs) = (kv # x # xs) ! 0"
        using False res 0 by simp
      moreover have "\<forall>j < length (kv # x # xs). snd ((kv # x # xs) ! j) \<le> snd ((kv # x # xs) ! 0)"
      proof (intro allI impI)
        fix j assume j: "j < length (kv # x # xs)"
        show "snd ((kv # x # xs) ! j) \<le> snd ((kv # x # xs) ! 0)"
        proof (cases j)
          case 0
          then show ?thesis by simp
        next
          case (Suc i)
          show ?thesis
          proof (cases i)
            case 0
            with Suc False show ?thesis by simp
          next
            case (Suc m)
            with \<open>j = Suc i\<close> j have "Suc m < length (kv # xs)" by simp
            with ge \<open>k = 0\<close> have "snd ((kv # xs) ! Suc m) \<le> snd kv" by fastforce
            with Suc \<open>j = Suc i\<close> show ?thesis by simp
          qed
        qed
      qed
      ultimately show ?thesis by blast
    next
      case (Suc k')
      have "Suc k < length (kv # x # xs)" using k by simp
      moreover have "foldl ?f kv (x # xs) = (kv # x # xs) ! Suc k"
        using False res Suc by simp
      moreover have "\<forall>j < length (kv # x # xs). snd ((kv # x # xs) ! j) \<le> snd ((kv # x # xs) ! Suc k)"
      proof (intro allI impI)
        fix j assume j: "j < length (kv # x # xs)"
        show "snd ((kv # x # xs) ! j) \<le> snd ((kv # x # xs) ! Suc k)"
        proof (cases j)
          case 0
          then show ?thesis using kv_le Suc by simp
        next
          case (Suc i)
          show ?thesis
          proof (cases i)
            case 0
            with Suc False kv_le \<open>k = Suc k'\<close> show ?thesis by simp
          next
            case (Suc m)
            with \<open>j = Suc i\<close> j have "Suc m < length (kv # xs)" by simp
            with ge have "snd ((kv # xs) ! Suc m) \<le> snd ((kv # xs) ! k)" by blast
            with Suc \<open>j = Suc i\<close> \<open>k = Suc k'\<close> show ?thesis by simp
          qed
        qed
      qed
      moreover have "\<forall>j < Suc k. snd ((kv # x # xs) ! j) < snd ((kv # x # xs) ! Suc k)"
      proof (intro allI impI)
        fix j assume j: "j < Suc k"
        from gt Suc have kv_lt: "snd kv < snd ((kv # xs) ! k)" by fastforce
        show "snd ((kv # x # xs) ! j) < snd ((kv # x # xs) ! Suc k)"
        proof (cases j)
          case 0
          then show ?thesis using kv_lt Suc by simp
        next
          case (Suc i)
          show ?thesis
          proof (cases i)
            case 0
            with Suc False kv_lt \<open>k = Suc k'\<close> show ?thesis by simp
          next
            case (Suc m)
            with \<open>j = Suc i\<close> j have "Suc m < k" by simp
            with gt have "snd ((kv # xs) ! Suc m) < snd ((kv # xs) ! k)" by blast
            with Suc \<open>j = Suc i\<close> \<open>k = Suc k'\<close> show ?thesis by simp
          qed
        qed
      qed
      ultimately show ?thesis by blast
    qed
  qed
qed

lemma ACTIONS_shape: "distinct ACTIONS \<and> length ACTIONS = 5"
  by (simp add: ACTIONS_def)

lemma wf_row_nth:
  assumes keys: "map fst r = ACTIONS" and j: "j < 5"
  shows "fst (r ! j) = ACTIONS ! j" and "map_of r (ACTIONS ! j) = Some (snd (r ! j))"
proof -
  have len: "length r = 5"
    using keys ACTIONS_shape by (metis length_map)
  with j have in_r: "r ! j \<in> set r" by simp
  show key: "fst (r ! j) = ACTIONS ! j"
    using keys j len by (metis nth_map)
  have "distinct (map fst r)"
    using keys ACTIONS_shape by simp
  then have "map_of r (fst (r ! j)) = Some (snd (r ! j))"
    using in_r by simp
  then show "map_of r (ACTIONS ! j) = Some (snd (r ! j))"
    by (simp add: key)
qed

lemma qval_wf_row:
  assumes "q st = Some r" and "map fst r = ACTIONS" and "j < 5"
  shows "qval q st (ACTIONS ! j) = snd (r ! j)"
  using assms wf_row_nth(2) [of r j] by (simp add: qval_def)

lemma py_max_key_first:
  assumes "r \<noteq> []"
  shows "\<exists>k < length r. py_max_key r = Inr (fst (r ! k))
           \<and> (\<forall>j < length r. snd (r ! j) \<le> snd (r ! k))
           \<and> (\<forall>j < k. snd (r ! j) < snd (r ! k))"
proof -
  from assms obtain kv kvs where r: "r = kv # kvs"
    by (cases r) auto
  from foldl_best_first [of kv kvs] show ?thesis
    unfolding r by (auto simp del: length_Cons nth_Cons_Suc foldl_Cons)
qed

lemma random_choice_ACTIONS: "random_choice ACTIONS i = Inr (ACTIONS ! (i mod 5))"
  by (simp add: random_choice_def ACTIONS_def)

lemma choose_action_explore:
  assumes "u < EPSILON \<or> q st = None"
  shows "choose_action st u i q = Inr (ACTIONS ! (i mod 5), q)"
  using assms by (auto simp add: choose_action_def random_choice_ACTIONS)

lemma choose_action_greedy:
  assumes nexp: "\<not> u < EPSILON" and wf: "wf_table q" and known: "q st \<noteq> None"
  shows "\<exists>k < 5. choose_action st u i q = Inr (ACTIONS ! k, q)
           \<and> (\<forall>j < 5. qval q st (ACTIONS ! j) \<le> qval q st (ACTIONS ! k))
           \<and> (\<forall>j < k. qval q st (ACTIONS ! j) < qval q st (ACTIONS ! k))"
proof -
  from known obtain r where r: "q st = Some r" by blast
  with wf have keys: "map fst r = ACTIONS" by (rule wf_tableD)
  then have len: "length r = 5"
    using ACTIONS_shape by (metis length_map)
  then have "r \<noteq> []" by auto
  from py_max_key_first [OF this] len obtain k where k: "k < 5"
    and res: "py_max_key r = Inr (fst (r ! k))"
    and ge: "\<forall>j < 5. snd (r ! j) \<le> snd (r ! k)"
    and gt: "\<forall>j < k. snd (r ! j) < snd (r ! k)"
    by auto
  have val: "qval q st (ACTIONS ! j) = snd (r ! j)" if "j < 5" for j
    using qval_wf_row [of q st r j] r keys that by simp
  have "choose_action st u i q = Inr (ACTIONS ! k, q)"
    using nexp r res wf_row_nth(1) [OF keys k] by (simp add: choose_action_def)
  moreover have "\<forall>j < 5. qval q st (ACTIONS ! j) \<le> qval q st (ACTIONS ! k)"
    using ge k by (simp add: val)
  moreover have "\<forall>j < k. qval q st (ACTIONS ! j) < qval q st (ACTIONS ! k)"
    using gt k by (simp add: val)
  ultimately show ?thesis using k by blast
qed

lemma choose_action_table:
  assumes "choose_action st u i q = Inr (a, q')"
  shows "q' = q"
  using assms
  by (auto simp add: choose_action_def split: if_splits sum.splits option.splits)

lemma choose_action_in_ACTIONS:
  assumes "wf_table q" and "choose_action st u i q = Inr (a, q')"
  shows "a \<in> set ACTIONS"
proof (cases "u < EPSILON \<or> q st = None")
  case True
  then have "choose_action st u i q = Inr (ACTIONS ! (i mod 5), q)"
    by (rule choose_action_explore)
  with assms(2) have "a = ACTIONS ! (i mod 5)" by simp
  moreover have "i mod 5 < length ACTIONS" by (simp add: ACTIONS_shape)
  ultimately show ?thesis by (metis nth_mem)
next
  case False
  then have "\<not> u < EPSILON" and "q st \<noteq> None" by simp_all
  from choose_action_greedy [OF this(1) assms(1) this(2), of i]
  obtain k where "k < 5" and "choose_action st u i q = Inr (ACTIONS ! k, q)" by blast
  with assms(2) have "a = ACTIONS ! k" and "k < length ACTIONS"
    by (simp_all add: ACTIONS_shape)
  then show ?thesis by (metis nth_mem)
qed

lemma choose_action_total:
  assumes "wf_table q"
  shows "\<exists>a. choose_action st u i q = Inr (a, q) \<and> a \<in> set ACTIONS"
proof (cases "u < EPSILON \<or> q st = None")
  case True
  then have e: "choose_action st u i q = Inr (ACTIONS ! (i mod 5), q)"
    by (rule choose_action_explore)
  with choose_action_in_ACTIONS [OF assms e] show ?thesis by blast
next
  case False
  then have "\<not> u < EPSILON" and "q st \<noteq> None" by simp_all
  from choose_action_greedy [OF this(1) assms this(2), of i]
  obtain k where e: "choose_action st u i q = Inr (ACTIONS ! k, q)" by blast
  with choose_action_in_ACTIONS [OF assms e] show ?thesis by blast
qed

text \<open>
  Claim C7. With \<open>u\<close> the draw of \<^verbatim>\<open>random.random()\<close> and \<open>i\<close> the draw behind
  \<^verbatim>\<open>random.choice\<close>: when \<open>u < 0.1\<close>, and also when the state has no row, \<open>choose_action\<close>
  returns the action that the draw \<open>i\<close> selects among the five of \<open>ACTIONS\<close> (which are
  distinct, so equally likely indices give equally likely actions). Otherwise, on a
  well-formed table, it returns an action whose value is the maximum of the state's row, and
  the first such action in the order of the row. In every case the table it returns is the
  table it was given.
\<close>

theorem C7_choose_action:
  "(u < 0.1 \<or> st \<notin> dom q \<longrightarrow> choose_action st u i q = Inr (ACTIONS ! (i mod 5), q))
   \<and> (\<not> u < 0.1 \<and> st \<in> dom q \<and> wf_table q \<longrightarrow>
        (\<exists>k < 5. choose_action st u i q = Inr (ACTIONS ! k, q)
           \<and> qval q st (ACTIONS ! k) = max_qval q st
           \<and> (\<forall>j < 5. qval q st (ACTIONS ! j) \<le> qval q st (ACTIONS ! k))
           \<and> (\<forall>j < k. qval q st (ACTIONS ! j) < qval q st (ACTIONS ! k))))
   \<and> (\<forall>a q'. choose_action st u i q = Inr (a, q') \<longrightarrow> q' = q)
   \<and> distinct ACTIONS \<and> length ACTIONS = 5"
proof -
  have eps: "EPSILON = 0.1" by (simp add: EPSILON_def)
  have explore: "u < 0.1 \<or> st \<notin> dom q \<longrightarrow>
      choose_action st u i q = Inr (ACTIONS ! (i mod 5), q)"
    using choose_action_explore [of u q st i] by (auto simp add: eps domIff)
  have greedy: "\<not> u < 0.1 \<and> st \<in> dom q \<and> wf_table q \<longrightarrow>
        (\<exists>k < 5. choose_action st u i q = Inr (ACTIONS ! k, q)
           \<and> qval q st (ACTIONS ! k) = max_qval q st
           \<and> (\<forall>j < 5. qval q st (ACTIONS ! j) \<le> qval q st (ACTIONS ! k))
           \<and> (\<forall>j < k. qval q st (ACTIONS ! j) < qval q st (ACTIONS ! k)))"
  proof
    assume a: "\<not> u < 0.1 \<and> st \<in> dom q \<and> wf_table q"
    then have "\<not> u < EPSILON" and "wf_table q" and "q st \<noteq> None"
      by (auto simp add: eps)
    from choose_action_greedy [OF this, of i] obtain k where k: "k < 5"
      and res: "choose_action st u i q = Inr (ACTIONS ! k, q)"
      and ge: "\<forall>j < 5. qval q st (ACTIONS ! j) \<le> qval q st (ACTIONS ! k)"
      and gt: "\<forall>j < k. qval q st (ACTIONS ! j) < qval q st (ACTIONS ! k)"
      by blast
    have "Max ((qval q st) ` set ACTIONS) = qval q st (ACTIONS ! k)"
    proof (rule Max_eqI)
      show "finite ((qval q st) ` set ACTIONS)" by simp
      show "qval q st (ACTIONS ! k) \<in> (qval q st) ` set ACTIONS"
        using k by (simp add: ACTIONS_shape)
      fix y assume "y \<in> (qval q st) ` set ACTIONS"
      then obtain j where "j < 5" and "y = qval q st (ACTIONS ! j)"
        by (auto simp add: in_set_conv_nth ACTIONS_shape)
      with ge show "y \<le> qval q st (ACTIONS ! k)" by simp
    qed
    then have "qval q st (ACTIONS ! k) = max_qval q st"
      by (simp add: max_qval_def)
    with k res ge gt show "\<exists>k < 5. choose_action st u i q = Inr (ACTIONS ! k, q)
           \<and> qval q st (ACTIONS ! k) = max_qval q st
           \<and> (\<forall>j < 5. qval q st (ACTIONS ! j) \<le> qval q st (ACTIONS ! k))
           \<and> (\<forall>j < k. qval q st (ACTIONS ! j) < qval q st (ACTIONS ! k))"
      by blast
  qed
  have same: "\<forall>a q'. choose_action st u i q = Inr (a, q') \<longrightarrow> q' = q"
    using choose_action_table by blast
  from explore greedy same ACTIONS_shape show ?thesis by blast
qed

theorem C7_choose_action_witness:
  "\<not> 1 / 2 < (0.1 :: real)
   \<and> (5, 0, 5, 9) \<in> dom (Map.empty((5, 0, 5, 9) \<mapsto>
         [(''UP'', 0), (''DOWN'', 3), (''LEFT'', 3), (''RIGHT'', 0), (''SHOOT'', 1)]) :: q_table)
   \<and> wf_table (Map.empty((5, 0, 5, 9) \<mapsto>
         [(''UP'', 0), (''DOWN'', 3), (''LEFT'', 3), (''RIGHT'', 0), (''SHOOT'', 1)]))
   \<and> choose_action (5, 0, 5, 9) (1 / 2) 0 (Map.empty((5, 0, 5, 9) \<mapsto>
         [(''UP'', 0), (''DOWN'', 3), (''LEFT'', 3), (''RIGHT'', 0), (''SHOOT'', 1)]))
       = Inr (''DOWN'', Map.empty((5, 0, 5, 9) \<mapsto>
         [(''UP'', 0), (''DOWN'', 3), (''LEFT'', 3), (''RIGHT'', 0), (''SHOOT'', 1)]))
   \<and> 1 / 20 < (0.1 :: real)
   \<and> choose_action (5, 0, 5, 9) (1 / 20) 7 Map.empty = Inr (''LEFT'', Map.empty)"
proof -
  let ?st = "(5, 0, 5, 9) :: state"
  let ?q = "Map.empty(?st \<mapsto>
         [(''UP'', 0), (''DOWN'', 3), (''LEFT'', 3), (''RIGHT'', 0), (''SHOOT'', 1 :: real)]) :: q_table"
  have h1: "\<not> 1 / 2 < (0.1 :: real)" by simp
  have h2: "?st \<in> dom ?q" by simp
  have h3: "wf_table ?q"
    by (rule wf_tableI) (auto simp add: ACTIONS_def split: if_splits)
  have m: "max_qval ?q ?st = 3"
    by (simp add: max_qval_def qval_def ACTIONS_def)
  from C7_choose_action [of "1 / 2" ?st ?q 0] h1 h2 h3
  obtain k where k: "k < 5"
    and res: "choose_action ?st (1 / 2) 0 ?q = Inr (ACTIONS ! k, ?q)"
    and top: "qval ?q ?st (ACTIONS ! k) = max_qval ?q ?st"
    and first: "\<forall>j < k. qval ?q ?st (ACTIONS ! j) < qval ?q ?st (ACTIONS ! k)"
    by blast
  from k have "k = 0 \<or> k = 1 \<or> k = 2 \<or> k = 3 \<or> k = 4" by arith
  with top m have "k = 1 \<or> k = 2"
    by (auto simp add: qval_def ACTIONS_def)
  moreover have "k \<noteq> 2"
  proof
    assume "k = 2"
    with first have "qval ?q ?st (ACTIONS ! 1) < qval ?q ?st (ACTIONS ! 2)" by simp
    then show False by (simp add: qval_def ACTIONS_def)
  qed
  ultimately have "k = 1" by simp
  with res have greedy: "choose_action ?st (1 / 2) 0 ?q = Inr (''DOWN'', ?q)"
    by (simp add: ACTIONS_def)
  have h4: "1 / 20 < (0.1 :: real)" by simp
  from C7_choose_action [of "1 / 20" ?st Map.empty 7] h4
  have explore: "choose_action ?st (1 / 20) 7 Map.empty = Inr (''LEFT'', Map.empty)"
    by (simp add: ACTIONS_def)
  from h1 h2 h3 greedy h4 explore show ?thesis by blast
qed

section \<open>Hit detection\<close>

lemma hit_scan_miss:
  "(px, py) \<notin> set cs \<Longrightarrow> hit_scan cs px py bs pts = (bs, pts)"
  by (induction cs) (auto simp add: prod_eq_iff)

lemma hit_scan_hit:
  "(px, py) \<in> set cs \<Longrightarrow> hit_scan cs px py bs pts = (remove1 (px, py) bs, pts + 1)"
proof (induction cs)
  case Nil
  then show ?case by simp
next
  case (Cons c cs)
  show ?case
  proof (cases "fst c = px \<and> snd c = py")
    case True
    then have "c = (px, py)" by (simp add: prod_eq_iff)
    then show ?thesis by simp
  next
    case False
    then have "c \<noteq> (px, py)" by auto
    with Cons show ?thesis using False by auto
  qed
qed

lemma hit_loop_cases:
  "hit_loop bs target pts =
     (if position target \<in> set bs then (remove1 (position target) bs, pts + 1) else (bs, pts))"
  by (simp add: hit_loop_def position_def hit_scan_hit hit_scan_miss)

lemma remove1_first:
  "c \<notin> set pre \<Longrightarrow> remove1 c (pre @ c # post) = pre @ post"
  by (simp add: remove1_append)

lemma hit_detection_fields:
  "ai (hit_detection g) = (ai g)\<lparr>bullets := fst (hit_loop (bullets (ai g)) (player g) (ai_pts g))\<rparr>"
  "ai_pts (hit_detection g) = snd (hit_loop (bullets (ai g)) (player g) (ai_pts g))"
  "player (hit_detection g) =
     (player g)\<lparr>bullets := fst (hit_loop (bullets (player g)) (ai g) (player_pts g))\<rparr>"
  "player_pts (hit_detection g) = snd (hit_loop (bullets (player g)) (ai g) (player_pts g))"
  "run (hit_detection g) = run g"
  "agent (hit_detection g) = agent g"
  by (simp_all add: hit_detection_def hit_loop_def split_beta Let_def)

text \<open>
  Claim C6. One hit loop over a projectile list and a target tank: if no projectile is on
  the target's cell, list and score are unchanged; otherwise the first projectile on that
  cell is removed, the score grows by exactly one and every other projectile stays, also
  further ones on the same cell. Hit detection of a frame is this loop on the AI's list
  against the player (counted in \<open>ai_pts\<close>) and on the player's list against the AI
  (counted in \<open>player_pts\<close>); it moves neither tank.
\<close>

theorem C6_hit_detection:
  "(position target \<notin> set bs \<longrightarrow> hit_loop bs target pts = (bs, pts))
   \<and> (bs = pre @ position target # post \<and> position target \<notin> set pre \<longrightarrow>
        hit_loop bs target pts = (pre @ post, pts + 1))
   \<and> (bullets (ai (hit_detection g)), ai_pts (hit_detection g)) =
        hit_loop (bullets (ai g)) (player g) (ai_pts g)
   \<and> (bullets (player (hit_detection g)), player_pts (hit_detection g)) =
        hit_loop (bullets (player g)) (ai g) (player_pts g)
   \<and> position (ai (hit_detection g)) = position (ai g)
   \<and> position (player (hit_detection g)) = position (player g)"
proof -
  have miss: "position target \<notin> set bs \<longrightarrow> hit_loop bs target pts = (bs, pts)"
    by (simp add: hit_loop_cases)
  have hit: "bs = pre @ position target # post \<and> position target \<notin> set pre \<longrightarrow>
        hit_loop bs target pts = (pre @ post, pts + 1)"
    by (auto simp add: hit_loop_cases remove1_first)
  have a: "(bullets (ai (hit_detection g)), ai_pts (hit_detection g)) =
        hit_loop (bullets (ai g)) (player g) (ai_pts g)"
    by (simp add: hit_detection_fields)
  have p: "(bullets (player (hit_detection g)), player_pts (hit_detection g)) =
        hit_loop (bullets (player g)) (ai g) (player_pts g)"
    by (simp add: hit_detection_fields)
  have pa: "position (ai (hit_detection g)) = position (ai g)"
    by (simp add: hit_detection_fields position_def)
  have pp: "position (player (hit_detection g)) = position (player g)"
    by (simp add: hit_detection_fields position_def)
  from miss hit a p pa pp show ?thesis by blast
qed

theorem C6_hit_detection_witness:
  "position (Tank 5 0 False) \<notin> set [(3, 4)]
   \<and> position (Tank 5 0 False) = (5, 0)
   \<and> hit_loop [(3, 4), (5, 0), (5, 0)] (Tank 5 0 False) 6 = ([(3, 4), (5, 0)], 7)
   \<and> hit_loop [(3, 4), (5, 1)] (Tank 5 0 False) 6 = ([(3, 4), (5, 1)], 6)
   \<and> player_pts (hit_detection
         (initial_game\<lparr>player := (Tank 5 9 True)\<lparr>bullets := [(5, 0)]\<rparr>\<rparr>)) = 1
   \<and> bullets (player (hit_detection
         (initial_game\<lparr>player := (Tank 5 9 True)\<lparr>bullets := [(5, 0)]\<rparr>\<rparr>))) = []"
proof -
  have pos: "position (Tank 5 0 False) = (5, 0)"
    by (simp add: position_def Tank_def)
  have h1: "position (Tank 5 0 False) \<notin> set [(3, 4)]"
    by (simp add: pos)
  have h2: "[(3, 4), (5, 0), (5, 0)] = [(3, 4)] @ position (Tank 5 0 False) # [(5, 0)]"
    by (simp add: pos)
  have r1: "hit_loop [(3, 4), (5, 0), (5, 0)] (Tank 5 0 False) 6 = ([(3, 4), (5, 0)], 7)"
    using C6_hit_detection [of "Tank 5 0 False" "[(3, 4), (5, 0), (5, 0)]" 6 "[(3, 4)]" "[(5, 0)]"]
      h1 h2 by simp
  have r2: "hit_loop [(3, 4), (5, 1)] (Tank 5 0 False) 6 = ([(3, 4), (5, 1)], 6)"
    using C6_hit_detection [of "Tank 5 0 False" "[(3, 4), (5, 1)]" 6] by (simp add: pos)
  let ?g = "initial_game\<lparr>player := (Tank 5 9 True)\<lparr>bullets := [(5, 0)]\<rparr>\<rparr>"
  have h3: "[(5, 0)] = [] @ position (ai ?g) # []"
    by (simp add: initial_game_def pos)
  have "hit_loop [(5, 0)] (ai ?g) 0 = ([], 1)"
    using C6_hit_detection [of "ai ?g" "[(5, 0)]" 0 "[]" "[]"] h3 by simp
  moreover have "bullets (player ?g) = [(5, 0)]" and "player_pts ?g = 0"
    by (simp_all add: initial_game_def)
  ultimately have r3: "player_pts (hit_detection ?g) = 1 \<and> bullets (player (hit_detection ?g)) = []"
    using C6_hit_detection [of _ _ _ _ _ ?g] by simp
  from h1 pos r1 r2 r3 show ?thesis by blast
qed

section \<open>The phases of a frame\<close>

lemma move_keeps:
  "bullets (move d t) = bullets t"
  "last_shot_time (move d t) = last_shot_time t"
  "is_player (move d t) = is_player t"
  by (simp_all add: move_cases)

lemma shoot_blocked: "\<not> can_shoot now1 t \<Longrightarrow> shoot now1 now2 t = t"
  by (simp add: shoot_def)

lemma update_bullets_on_grid:
  "b \<in> set (bullets (update_bullets t)) \<Longrightarrow> 0 \<le> snd b \<and> snd b \<le> GRID_SIZE - 1"
  by (simp add: update_bullets_def on_grid_def)

lemma update_bullets_keeps:
  "last_shot_time (update_bullets t) = last_shot_time t"
  "tank_x (update_bullets t) = tank_x t"
  "tank_y (update_bullets t) = tank_y t"
  "is_player (update_bullets t) = is_player t"
  by (simp_all add: update_bullets_def)

lemma update_bullets_none: "bullets t = [] \<Longrightarrow> bullets (update_bullets t) = []"
  by (simp add: update_bullets_def)

lemma update_phase_fields:
  "player (update_phase g) = update_bullets (player g)"
  "ai (update_phase g) = update_bullets (ai g)"
  "player_pts (update_phase g) = player_pts g"
  "ai_pts (update_phase g) = ai_pts g"
  "run (update_phase g) = run g"
  "agent (update_phase g) = agent g"
  by (simp_all add: update_phase_def Let_def)

lemma process_events_fields:
  "player (process_events inp g) = player g"
  "ai (process_events inp g) = ai g"
  "player_pts (process_events inp g) = player_pts g"
  "ai_pts (process_events inp g) = ai_pts g"
  "agent (process_events inp g) = agent g"
  by (simp_all add: process_events_def)

lemma player_input_fields:
  "ai (player_input inp g) = ai g"
  "player_pts (player_input inp g) = player_pts g"
  "ai_pts (player_input inp g) = ai_pts g"
  "run (player_input inp g) = run g"
  "agent (player_input inp g) = agent g"
  by (simp_all add: player_input_def Let_def)

lemma win_check_fields:
  "player (win_check g) = player g"
  "ai (win_check g) = ai g"
  "player_pts (win_check g) = player_pts g"
  "ai_pts (win_check g) = ai_pts g"
  "agent (win_check g) = agent g"
  "run (win_check g) = (if WIN_SCORE \<le> player_pts g \<or> WIN_SCORE \<le> ai_pts g then False else run g)"
  by (simp_all add: win_check_def)

lemma hit_loop_subset: "set (fst (hit_loop bs target pts)) \<subseteq> set bs"
  using set_remove1_subset [of "position target" bs] by (simp add: hit_loop_cases)

lemma hit_loop_none: "hit_loop [] target pts = ([], pts)"
  by (simp add: hit_loop_def)

lemma ai_decision_total:
  assumes "wf_table (agent g)"
  shows "\<exists>a g1. ai_decision inp g = Inr (get_state (ai g) (player g), a, g1)
           \<and> a \<in> set ACTIONS \<and> agent g1 = agent g \<and> player g1 = player g
           \<and> player_pts g1 = player_pts g \<and> ai_pts g1 = ai_pts g \<and> run g1 = run g
           \<and> ai g1 =
               (if a = ''SHOOT'' then shoot (fst (ai_ticks inp)) (snd (ai_ticks inp)) (ai g)
                else move a (ai g))"
proof -
  from choose_action_total [OF assms, of "get_state (ai g) (player g)" "rnd inp" "pick inp"]
  obtain a where ch: "choose_action (get_state (ai g) (player g)) (rnd inp) (pick inp) (agent g)
       = Inr (a, agent g)" and a: "a \<in> set ACTIONS"
    by blast
  from a have cases: "a = ''UP'' \<or> a = ''DOWN'' \<or> a = ''LEFT'' \<or> a = ''RIGHT'' \<or> a = ''SHOOT''"
    by (simp add: ACTIONS_def)
  define a2 where "a2 =
    (if a = ''SHOOT'' then shoot (fst (ai_ticks inp)) (snd (ai_ticks inp)) (ai g)
     else move a (ai g))"
  have "ai_decision inp g =
      Inr (get_state (ai g) (player g), a, g\<lparr>ai := a2, agent := agent g\<rparr>)"
    using cases unfolding a2_def by (auto simp add: ai_decision_def ch Let_def)
  then show ?thesis using a unfolding a2_def by auto
qed

lemma learn_phase_total:
  assumes "wf_table (agent g)" and "a \<in> set ACTIONS"
  shows "\<exists>q. learn_phase st a g = Inr (g\<lparr>agent := q\<rparr>) \<and> wf_table q"
proof -
  from learn_with_result [OF assms, of LEARNING_RATE st 0 "get_state (ai g) (player g)"]
  obtain q where "learn st a 0 (get_state (ai g) (player g)) (agent g) = Inr q" and "wf_table q"
    unfolding learn_def by blast
  then have "learn_phase st a g = Inr (g\<lparr>agent := q\<rparr>)"
    by (simp add: learn_phase_def)
  with \<open>wf_table q\<close> show ?thesis by blast
qed

lemma before_hits_total:
  assumes "wf_table (agent g)"
  shows "\<exists>a g0. ai_decision inp (player_input inp (process_events inp g)) =
             Inr (get_state (ai g) (player (player_input inp (process_events inp g))), a, g0)
           \<and> before_hits inp g =
             Inr (get_state (ai g) (player (player_input inp (process_events inp g))), a,
                  update_phase g0)
           \<and> a \<in> set ACTIONS \<and> agent g0 = agent g
           \<and> player_pts g0 = player_pts g \<and> ai_pts g0 = ai_pts g"
proof -
  let ?g = "player_input inp (process_events inp g)"
  have "wf_table (agent ?g)"
    using assms by (simp add: player_input_fields process_events_fields)
  from ai_decision_total [OF this, of inp]
  obtain a g0 where "ai_decision inp ?g = Inr (get_state (ai ?g) (player ?g), a, g0)"
    and "a \<in> set ACTIONS" and "agent g0 = agent ?g"
    and "player_pts g0 = player_pts ?g" and "ai_pts g0 = ai_pts ?g"
    by blast
  then show ?thesis
    by (simp add: before_hits_def player_input_fields process_events_fields)
qed

lemma frame_total:
  assumes "wf_table (agent g)"
  shows "\<exists>g'. frame inp g = Inr g' \<and> wf_table (agent g')"
proof -
  from before_hits_total [OF assms, of inp]
  obtain st a g0 where bh: "before_hits inp g = Inr (st, a, update_phase g0)"
    and a: "a \<in> set ACTIONS" and ag: "agent g0 = agent g"
    by blast
  let ?h = "hit_detection (update_phase g0)"
  have "wf_table (agent ?h)"
    using assms ag by (simp add: hit_detection_fields update_phase_fields)
  from learn_phase_total [OF this a, of st]
  obtain q where lp: "learn_phase st a ?h = Inr (?h\<lparr>agent := q\<rparr>)" and wf: "wf_table q"
    by blast
  have "frame inp g = Inr (win_check (?h\<lparr>agent := q\<rparr>))"
    by (simp add: frame_def bh lp)
  moreover have "wf_table (agent (win_check (?h\<lparr>agent := q\<rparr>)))"
    using wf by (simp add: win_check_fields)
  ultimately show ?thesis by blast
qed

lemma frame_win:
  assumes "frame inp g = Inr g'" and "WIN_SCORE \<le> player_pts g' \<or> WIN_SCORE \<le> ai_pts g'"
  shows "\<not> run g'"
proof -
  from assms(1) obtain g2 where g': "g' = win_check g2"
    by (auto simp add: frame_def split: sum.splits prod.splits)
  with assms(2) show ?thesis
    by (simp add: win_check_fields)
qed

lemma game_loop_stopped: "\<not> run g \<Longrightarrow> game_loop inps g n = Inr (g, n)"
  by (cases inps) simp_all

lemma game_loop_total:
  assumes "wf_table (agent g)"
  shows "\<exists>g' n'. game_loop inps g n = Inr (g', n')"
  using assms
proof (induction inps arbitrary: g n)
  case Nil
  show ?case by simp
next
  case (Cons inp inps)
  show ?case
  proof (cases "run g")
    case False
    then show ?thesis by simp
  next
    case True
    from frame_total [OF Cons.prems, of inp]
    obtain g1 where f: "frame inp g = Inr g1" and wf: "wf_table (agent g1)" by blast
    from Cons.IH [OF wf, of "Suc n"] show ?thesis
      using True f by simp
  qed
qed

lemma ai_decision_fields:
  assumes "ai_decision inp g = Inr (st, a, g0)"
  shows "player g0 = player g" and "player_pts g0 = player_pts g" and "ai_pts g0 = ai_pts g"
    and "run g0 = run g"
    and "ai g0 =
      (if a = ''SHOOT'' then shoot (fst (ai_ticks inp)) (snd (ai_ticks inp)) (ai g)
       else if a \<in> {''UP'', ''DOWN'', ''LEFT'', ''RIGHT''} then move a (ai g)
       else ai g)"
proof -
  let ?ch = "choose_action (get_state (ai g) (player g)) (rnd inp) (pick inp) (agent g)"
  define a1 where "a1 act = (if act \<in> {''UP'', ''DOWN'', ''LEFT'', ''RIGHT''}
                              then move act (ai g) else ai g)" for act
  define a2 where "a2 act = (if act = ''SHOOT''
                              then shoot (fst (ai_ticks inp)) (snd (ai_ticks inp)) (a1 act)
                              else a1 act)" for act
  have unfold: "ai_decision inp g =
      (case ?ch of
         Inl e \<Rightarrow> Inl e
       | Inr (act, q) \<Rightarrow> Inr (get_state (ai g) (player g), act, g\<lparr>ai := a2 act, agent := q\<rparr>))"
    unfolding ai_decision_def a1_def a2_def Let_def ..
  from assms obtain act q where ch: "?ch = Inr (act, q)"
    unfolding unfold by (cases ?ch) auto
  from assms have "Inr (get_state (ai g) (player g), act, g\<lparr>ai := a2 act, agent := q\<rparr>) =
      (Inr (st, a, g0) :: error + (state \<times> string \<times> game))"
    unfolding unfold ch by auto
  then have a: "act = a" and g0: "g0 = g\<lparr>ai := a2 a, agent := q\<rparr>"
    by auto
  show "player g0 = player g" and "player_pts g0 = player_pts g" and "ai_pts g0 = ai_pts g"
    and "run g0 = run g"
    by (simp_all add: g0)
  have "a1 ''SHOOT'' = ai g"
    by (simp add: a1_def)
  then have eq: "a2 a =
      (if a = ''SHOOT'' then shoot (fst (ai_ticks inp)) (snd (ai_ticks inp)) (ai g)
       else if a \<in> {''UP'', ''DOWN'', ''LEFT'', ''RIGHT''} then move a (ai g)
       else ai g)"
    by (cases "a = ''SHOOT''") (simp_all add: a2_def, simp add: a1_def)
  have "ai g0 = a2 a"
    by (simp add: g0)
  from this eq show "ai g0 =
      (if a = ''SHOOT'' then shoot (fst (ai_ticks inp)) (snd (ai_ticks inp)) (ai g)
       else if a \<in> {''UP'', ''DOWN'', ''LEFT'', ''RIGHT''} then move a (ai g)
       else ai g)"
    by (rule trans)
qed

lemma frame_decompose:
  assumes "frame inp g = Inr g'"
  shows "\<exists>st a g0 q.
           ai_decision inp (player_input inp (process_events inp g)) = Inr (st, a, g0)
           \<and> before_hits inp g = Inr (st, a, update_phase g0)
           \<and> g' = win_check ((hit_detection (update_phase g0))\<lparr>agent := q\<rparr>)"
  using assms
  by (auto simp add: frame_def before_hits_def learn_phase_def split: sum.splits prod.splits)

lemma never_fired_blocked:
  assumes "never_fired t" and "now1 < COOLDOWN_MS"
  shows "shoot now1 now2 t = t"
  using assms by (simp add: never_fired_def shoot_def can_shoot_def)

lemma never_fired_move: "never_fired t \<Longrightarrow> never_fired (move d t)"
  by (simp add: never_fired_def move_keeps)

lemma never_fired_update: "never_fired t \<Longrightarrow> never_fired (update_bullets t)"
  by (simp add: never_fired_def update_bullets_none update_bullets_keeps)

lemma never_fired_hit:
  "never_fired t \<Longrightarrow> never_fired (t\<lparr>bullets := fst (hit_loop (bullets t) target pts)\<rparr>)"
  by (simp add: never_fired_def hit_loop_none)

lemma player_input_never_fired:
  assumes "never_fired (player g)" and "fst (player_ticks inp) < COOLDOWN_MS"
  shows "never_fired (player (player_input inp g))"
  using assms
  by (simp add: player_input_def Let_def never_fired_move never_fired_blocked)

lemma frame_never_fired:
  assumes f: "frame inp g = Inr g'" and e: "early inp"
    and p: "never_fired (player g)" and a: "never_fired (ai g)"
  shows "never_fired (player g') \<and> never_fired (ai g')"
proof -
  let ?g = "player_input inp (process_events inp g)"
  from frame_decompose [OF f] obtain st act g0 q where
    ad: "ai_decision inp ?g = Inr (st, act, g0)"
    and g': "g' = win_check ((hit_detection (update_phase g0))\<lparr>agent := q\<rparr>)"
    by blast
  have "never_fired (player ?g)"
    using p e by (simp add: player_input_never_fired process_events_fields early_def)
  then have p0: "never_fired (player g0)"
    using ai_decision_fields(1) [OF ad] by simp
  have "never_fired (ai ?g)"
    using a by (simp add: player_input_fields process_events_fields)
  then have a0: "never_fired (ai g0)"
    using e ai_decision_fields(5) [OF ad]
    by (simp add: never_fired_move never_fired_blocked early_def
          player_input_fields process_events_fields)
  have "never_fired (player g')"
    unfolding g' using never_fired_hit [OF never_fired_update [OF p0]]
    by (simp add: win_check_fields hit_detection_fields update_phase_fields)
  moreover have "never_fired (ai g')"
    unfolding g' using never_fired_hit [OF never_fired_update [OF a0]]
    by (simp add: win_check_fields hit_detection_fields update_phase_fields)
  ultimately show ?thesis by blast
qed

lemma game_loop_never_fired:
  assumes "game_loop inps g n = Inr (g', n')" and "\<forall>inp \<in> set inps. early inp"
    and "never_fired (player g)" and "never_fired (ai g)"
  shows "never_fired (player g') \<and> never_fired (ai g')"
  using assms
proof (induction inps arbitrary: g n)
  case Nil
  then show ?case by simp
next
  case (Cons inp inps)
  show ?case
  proof (cases "run g")
    case False
    with Cons.prems show ?thesis by simp
  next
    case True
    with Cons.prems(1) obtain g1 where f: "frame inp g = Inr g1"
      and rest: "game_loop inps g1 (Suc n) = Inr (g', n')"
      by (auto split: sum.splits)
    from Cons.prems(2) have e: "early inp" and es: "\<forall>i \<in> set inps. early i"
      by simp_all
    from frame_never_fired [OF f e Cons.prems(3,4)]
    have "never_fired (player g1)" and "never_fired (ai g1)" by simp_all
    from Cons.IH [OF rest es this] show ?thesis .
  qed
qed

lemma before_hits_on_grid:
  assumes "before_hits inp g = Inr (st, a, g1)"
  shows "\<forall>b \<in> set (bullets (player g1)) \<union> set (bullets (ai g1)).
           0 \<le> snd b \<and> snd b \<le> GRID_SIZE - 1"
proof -
  from assms obtain g0 where "g1 = update_phase g0"
    by (auto simp add: before_hits_def split: sum.splits prod.splits)
  then show ?thesis
    by (auto simp add: update_phase_fields dest: update_bullets_on_grid)
qed

lemma frame_on_grid:
  assumes "frame inp g = Inr g'"
  shows "\<forall>b \<in> set (bullets (player g')) \<union> set (bullets (ai g')).
           0 \<le> snd b \<and> snd b \<le> GRID_SIZE - 1"
proof -
  from frame_decompose [OF assms] obtain st a g0 q where
    bh: "before_hits inp g = Inr (st, a, update_phase g0)"
    and g': "g' = win_check ((hit_detection (update_phase g0))\<lparr>agent := q\<rparr>)"
    by blast
  let ?u = "update_phase g0"
  have sub_p: "set (bullets (player g')) \<subseteq> set (bullets (player ?u))"
    unfolding g' using hit_loop_subset [of "bullets (player ?u)" "ai ?u" "player_pts ?u"]
    by (simp add: win_check_fields hit_detection_fields)
  have sub_a: "set (bullets (ai g')) \<subseteq> set (bullets (ai ?u))"
    unfolding g' using hit_loop_subset [of "bullets (ai ?u)" "player ?u" "ai_pts ?u"]
    by (simp add: win_check_fields hit_detection_fields)
  from before_hits_on_grid [OF bh] sub_p sub_a show ?thesis by blast
qed

lemma off_grid_shot_dropped:
  assumes "(is_player t \<and> tank_y t = 0) \<or> (\<not> is_player t \<and> tank_y t = GRID_SIZE - 1)"
  shows "bullets (update_bullets (shoot n1 n2 t)) = bullets (update_bullets t)"
  using assms
  by (auto simp add: update_bullets_def shoot_def advance_rows_map on_grid_def GRID_SIZE_def)

section \<open>Evaluating a frame on concrete inputs\<close>

lemmas frame_eval =
  frame_def before_hits_def ai_decision_def choose_action_def random_choice_def ACTIONS_def
  process_events_def player_input_def update_phase_def update_bullets_def on_grid_def
  hit_detection_def hit_loop_def learn_phase_def learn_def learn_with_def ensure_row_def
  zero_row_def win_check_def Tank_def initial_game_def move_def shoot_def can_shoot_def
  get_state_def quiet_input_def EPSILON_def GRID_SIZE_def COOLDOWN_MS_def WIN_SCORE_def
  LEARNING_RATE_def DISCOUNT_def Let_def

section \<open>Shots fired from the far row\<close>

text \<open>
  Claim C9. A player tank on row \<open>0\<close> that fires spawns its projectile on row \<open>-1\<close>, an AI
  tank on row \<open>GRID_SIZE - 1\<close> on row \<open>GRID_SIZE\<close>. The tank's next \<open>update_bullets\<close>
  drops that projectile: the list it leaves is the one it would have left without the shot.
  In a frame both lists are updated before hit detection, so on the game that hit detection
  receives, and on the game the frame returns, every projectile of either tank has its row
  in \<open>[0, GRID_SIZE - 1]\<close>: a projectile spawned off the grid is never there to hit.
\<close>

theorem C9_off_grid_shot:
  "(can_shoot n1 t \<and> is_player t \<and> tank_y t = 0 \<longrightarrow>
      bullets (shoot n1 n2 t) = bullets t @ [(tank_x t, - 1)])
   \<and> (can_shoot n1 t \<and> \<not> is_player t \<and> tank_y t = GRID_SIZE - 1 \<longrightarrow>
      bullets (shoot n1 n2 t) = bullets t @ [(tank_x t, GRID_SIZE)])
   \<and> ((is_player t \<and> tank_y t = 0) \<or> (\<not> is_player t \<and> tank_y t = GRID_SIZE - 1) \<longrightarrow>
      bullets (update_bullets (shoot n1 n2 t)) = bullets (update_bullets t))
   \<and> (before_hits inp g = Inr (st, a, g1) \<longrightarrow>
        (\<forall>b \<in> set (bullets (player g1)) \<union> set (bullets (ai g1)).
           0 \<le> snd b \<and> snd b \<le> GRID_SIZE - 1))
   \<and> (frame inp g = Inr g' \<longrightarrow>
        (\<forall>b \<in> set (bullets (player g')) \<union> set (bullets (ai g')).
           0 \<le> snd b \<and> snd b \<le> GRID_SIZE - 1))"
proof -
  have p: "can_shoot n1 t \<and> is_player t \<and> tank_y t = 0 \<longrightarrow>
      bullets (shoot n1 n2 t) = bullets t @ [(tank_x t, - 1)]"
    by (simp add: shoot_def)
  have a: "can_shoot n1 t \<and> \<not> is_player t \<and> tank_y t = GRID_SIZE - 1 \<longrightarrow>
      bullets (shoot n1 n2 t) = bullets t @ [(tank_x t, GRID_SIZE)]"
    by (simp add: shoot_def)
  have d: "(is_player t \<and> tank_y t = 0) \<or> (\<not> is_player t \<and> tank_y t = GRID_SIZE - 1) \<longrightarrow>
      bullets (update_bullets (shoot n1 n2 t)) = bullets (update_bullets t)"
    using off_grid_shot_dropped [of t n1 n2] by blast
  have b: "before_hits inp g = Inr (st, a, g1) \<longrightarrow>
        (\<forall>b \<in> set (bullets (player g1)) \<union> set (bullets (ai g1)).
           0 \<le> snd b \<and> snd b \<le> GRID_SIZE - 1)"
    using before_hits_on_grid [of inp g st a g1] by blast
  have f: "frame inp g = Inr g' \<longrightarrow>
        (\<forall>b \<in> set (bullets (player g')) \<union> set (bullets (ai g')).
           0 \<le> snd b \<and> snd b \<le> GRID_SIZE - 1)"
    using frame_on_grid [of inp g g'] by blast
  show ?thesis
    by (rule conjI [OF p conjI [OF a conjI [OF d conjI [OF b f]]]])
qed

theorem C9_off_grid_shot_witness:
  "can_shoot 1000 (Tank 5 0 True) \<and> is_player (Tank 5 0 True) \<and> tank_y (Tank 5 0 True) = 0
   \<and> bullets (shoot 1000 1001 (Tank 5 0 True)) = [(5, - 1)]
   \<and> bullets (update_bullets (shoot 1000 1001 (Tank 5 0 True))) = []
   \<and> can_shoot 1000 (Tank 5 9 False) \<and> \<not> is_player (Tank 5 9 False)
   \<and> tank_y (Tank 5 9 False) = GRID_SIZE - 1
   \<and> bullets (shoot 1000 1001 (Tank 5 9 False)) = [(5, 10)]
   \<and> bullets (update_bullets (shoot 1000 1001 (Tank 5 9 False))) = []
   \<and> (\<exists>st a g1.
         before_hits (quiet_input True 1000 (1 / 2) 4)
           (initial_game\<lparr>player := (Tank 5 0 True)\<lparr>bullets := [(5, 5)]\<rparr>, ai := Tank 5 9 False\<rparr>)
           = Inr (st, a, g1)
         \<and> bullets (player g1) = [(5, 4)] \<and> bullets (ai g1) = []
         \<and> (\<forall>b \<in> set (bullets (player g1)) \<union> set (bullets (ai g1)).
               0 \<le> snd b \<and> snd b \<le> GRID_SIZE - 1))
   \<and> (\<exists>g'.
         frame (quiet_input True 1000 (1 / 2) 4)
           (initial_game\<lparr>player := (Tank 5 0 True)\<lparr>bullets := [(5, 5)]\<rparr>, ai := Tank 5 9 False\<rparr>)
           = Inr g'
         \<and> (\<forall>b \<in> set (bullets (player g')) \<union> set (bullets (ai g')).
               0 \<le> snd b \<and> snd b \<le> GRID_SIZE - 1))"
proof -
  let ?p = "Tank 5 0 True" and ?a = "Tank 5 9 False"
  let ?g = "initial_game\<lparr>player := (Tank 5 0 True)\<lparr>bullets := [(5, 5)]\<rparr>, ai := Tank 5 9 False\<rparr>"
  let ?i = "quiet_input True 1000 (1 / 2) 4"
  have hp: "can_shoot 1000 ?p \<and> is_player ?p \<and> tank_y ?p = 0"
    by (simp add: can_shoot_def Tank_def COOLDOWN_MS_def)
  have ha: "can_shoot 1000 ?a \<and> \<not> is_player ?a \<and> tank_y ?a = GRID_SIZE - 1"
    by (simp add: can_shoot_def Tank_def COOLDOWN_MS_def GRID_SIZE_def)
  have none: "bullets (update_bullets ?p) = []" "bullets (update_bullets ?a) = []"
    by (simp_all add: update_bullets_def Tank_def)
  from C9_off_grid_shot [of 1000 ?p 1001] hp none(1)
  have p: "bullets (shoot 1000 1001 ?p) = [(5, - 1)]"
    "bullets (update_bullets (shoot 1000 1001 ?p)) = []"
    by (simp_all add: Tank_def)
  from C9_off_grid_shot [of 1000 ?a 1001] ha none(2)
  have a: "bullets (shoot 1000 1001 ?a) = [(5, 10)]"
    "bullets (update_bullets (shoot 1000 1001 ?a)) = []"
    by (simp_all add: Tank_def GRID_SIZE_def)
  have wf: "wf_table (agent ?g)"
    by (simp add: initial_game_def wf_table_empty)
  from before_hits_total [OF wf, of ?i] obtain st act g1 where
    bh: "before_hits ?i ?g = Inr (st, act, g1)"
    by blast
  have "bullets (player (snd (snd (projr (before_hits ?i ?g))))) = [(5, 4)]"
    and "bullets (ai (snd (snd (projr (before_hits ?i ?g))))) = []"
    by (simp_all add: frame_eval)
  with bh have lists: "bullets (player g1) = [(5, 4)]" "bullets (ai g1) = []"
    by simp_all
  from C9_off_grid_shot [of _ _ _ ?i ?g st act g1] bh
  have grid1: "\<forall>b \<in> set (bullets (player g1)) \<union> set (bullets (ai g1)).
      0 \<le> snd b \<and> snd b \<le> GRID_SIZE - 1"
    by blast
  from frame_total [OF wf, of ?i] obtain g' where f: "frame ?i ?g = Inr g'"
    by blast
  from C9_off_grid_shot [of _ _ _ ?i ?g _ _ _ g'] f
  have grid2: "\<forall>b \<in> set (bullets (player g')) \<union> set (bullets (ai g')).
      0 \<le> snd b \<and> snd b \<le> GRID_SIZE - 1"
    by blast
  from hp p ha a bh lists grid1 f grid2 show ?thesis by blast
qed

section \<open>The first shot\<close>

text \<open>
  Claim C10. A new tank has last-shot timestamp \<open>0\<close> and no projectile. With that timestamp
  and a clock below \<open>1000\<close> ms, \<open>can_shoot\<close> is false and \<open>shoot\<close> returns the tank unchanged.
  In the game: as long as every clock read is below \<open>1000\<close>, however many frames run and
  whatever keys and draws they get, both tanks end with no projectile and timestamp \<open>0\<close>.
\<close>

theorem C10_first_shot:
  "last_shot_time (Tank x0 y0 p) = 0 \<and> bullets (Tank x0 y0 p) = []
   \<and> (last_shot_time t = 0 \<and> now < 1000 \<longrightarrow> \<not> can_shoot now t \<and> shoot now now2 t = t)
   \<and> ((\<forall>inp \<in> set inps. fst (player_ticks inp) < 1000 \<and> fst (ai_ticks inp) < 1000)
        \<and> main inps = Inr (g, n) \<longrightarrow>
        bullets (player g) = [] \<and> bullets (ai g) = []
        \<and> last_shot_time (player g) = 0 \<and> last_shot_time (ai g) = 0)"
proof -
  have init: "last_shot_time (Tank x0 y0 p) = 0 \<and> bullets (Tank x0 y0 p) = []"
    by (simp add: Tank_def)
  have blocked: "last_shot_time t = 0 \<and> now < 1000 \<longrightarrow>
      \<not> can_shoot now t \<and> shoot now now2 t = t"
    by (simp add: can_shoot_def shoot_def COOLDOWN_MS_def)
  have run: "(\<forall>inp \<in> set inps. fst (player_ticks inp) < 1000 \<and> fst (ai_ticks inp) < 1000)
        \<and> main inps = Inr (g, n) \<longrightarrow>
        bullets (player g) = [] \<and> bullets (ai g) = []
        \<and> last_shot_time (player g) = 0 \<and> last_shot_time (ai g) = 0"
  proof
    assume h: "(\<forall>inp \<in> set inps. fst (player_ticks inp) < 1000 \<and> fst (ai_ticks inp) < 1000)
        \<and> main inps = Inr (g, n)"
    then have e: "\<forall>inp \<in> set inps. early inp"
      by (simp add: early_def COOLDOWN_MS_def)
    from h have m: "game_loop inps initial_game 0 = Inr (g, n)"
      by (simp add: main_def)
    have "never_fired (player initial_game)" and "never_fired (ai initial_game)"
      by (simp_all add: never_fired_def initial_game_def Tank_def)
    from game_loop_never_fired [OF m e this]
    show "bullets (player g) = [] \<and> bullets (ai g) = []
        \<and> last_shot_time (player g) = 0 \<and> last_shot_time (ai g) = 0"
      by (simp add: never_fired_def)
  qed
  show ?thesis
    by (rule conjI [OF init [THEN conjunct1] conjI [OF init [THEN conjunct2] conjI [OF blocked run]]])
qed

theorem C10_first_shot_witness:
  "last_shot_time (Tank 5 9 True) = 0 \<and> (999 :: int) < 1000
   \<and> \<not> can_shoot 999 (Tank 5 9 True)
   \<and> shoot 999 999 (Tank 5 9 True) = Tank 5 9 True
   \<and> fst (player_ticks (quiet_input True 100 (1 / 2) 4)) < 1000
   \<and> fst (ai_ticks (quiet_input True 100 (1 / 2) 4)) < 1000
   \<and> fst (player_ticks (quiet_input True 999 (1 / 2) 4)) < 1000
   \<and> fst (ai_ticks (quiet_input True 999 (1 / 2) 4)) < 1000
   \<and> (\<exists>g n. main [quiet_input True 100 (1 / 2) 4, quiet_input True 999 (1 / 2) 4] = Inr (g, n)
         \<and> bullets (player g) = [] \<and> bullets (ai g) = []
         \<and> last_shot_time (player g) = 0 \<and> last_shot_time (ai g) = 0)"
proof -
  let ?is = "[quiet_input True 100 (1 / 2) 4, quiet_input True 999 (1 / 2) 4]"
  have t0: "last_shot_time (Tank 5 9 True) = 0"
    by (simp add: Tank_def)
  from C10_first_shot [of _ _ _ "Tank 5 9 True" 999 999] t0
  have blocked: "\<not> can_shoot 999 (Tank 5 9 True)" "shoot 999 999 (Tank 5 9 True) = Tank 5 9 True"
    by simp_all
  have e: "\<forall>inp \<in> set ?is. fst (player_ticks inp) < 1000 \<and> fst (ai_ticks inp) < 1000"
    by (simp add: quiet_input_def)
  have "wf_table (agent initial_game)"
    by (simp add: initial_game_def wf_table_empty)
  from game_loop_total [OF this, of ?is 0] obtain g n where m: "main ?is = Inr (g, n)"
    unfolding main_def by blast
  from C10_first_shot [of _ _ _ _ _ _ ?is g n] e m
  have "bullets (player g) = [] \<and> bullets (ai g) = []
        \<and> last_shot_time (player g) = 0 \<and> last_shot_time (ai g) = 0"
    by blast
  moreover have "fst (player_ticks (quiet_input True 100 (1 / 2) 4)) < 1000"
    and "fst (ai_ticks (quiet_input True 100 (1 / 2) 4)) < 1000"
    and "fst (player_ticks (quiet_input True 999 (1 / 2) 4)) < 1000"
    and "fst (ai_ticks (quiet_input True 999 (1 / 2) 4)) < 1000"
    by (simp_all add: quiet_input_def)
  ultimately show ?thesis using t0 blocked m by auto
qed

section \<open>The win check ends the loop\<close>

text \<open>
  Claim C8. The game starts with both scores \<open>0\<close>, the run flag set and an empty table. From
  a well-formed table a frame always returns a game. If a frame returns with either score
  at \<open>10\<close> or more, the run flag of the game it returns is false; the loop then runs no
  further iteration, whatever inputs remain: started on a running game it ends with that
  game, having counted exactly that one frame.
\<close>

theorem C8_win_stops_loop:
  "player_pts initial_game = 0 \<and> ai_pts initial_game = 0 \<and> run initial_game
   \<and> wf_table (agent initial_game)
   \<and> (wf_table (agent g) \<longrightarrow> (\<exists>g'. frame inp g = Inr g' \<and> wf_table (agent g')))
   \<and> (frame inp g = Inr g' \<and> (10 \<le> player_pts g' \<or> 10 \<le> ai_pts g') \<longrightarrow>
        \<not> run g'
        \<and> game_loop rest g' (Suc n) = Inr (g', Suc n)
        \<and> (run g \<longrightarrow> game_loop (inp # rest) g n = Inr (g', Suc n)))"
proof -
  have init: "player_pts initial_game = 0 \<and> ai_pts initial_game = 0 \<and> run initial_game
      \<and> wf_table (agent initial_game)"
    by (simp add: initial_game_def wf_table_empty)
  have total: "wf_table (agent g) \<longrightarrow> (\<exists>g'. frame inp g = Inr g' \<and> wf_table (agent g'))"
    using frame_total [of g inp] by blast
  have stop: "frame inp g = Inr g' \<and> (10 \<le> player_pts g' \<or> 10 \<le> ai_pts g') \<longrightarrow>
        \<not> run g'
        \<and> game_loop rest g' (Suc n) = Inr (g', Suc n)
        \<and> (run g \<longrightarrow> game_loop (inp # rest) g n = Inr (g', Suc n))"
  proof
    assume h: "frame inp g = Inr g' \<and> (10 \<le> player_pts g' \<or> 10 \<le> ai_pts g')"
    then have f: "frame inp g = Inr g'" by simp
    from h have "WIN_SCORE \<le> player_pts g' \<or> WIN_SCORE \<le> ai_pts g'"
      by (simp add: WIN_SCORE_def)
    from frame_win [OF f this] have stopped: "\<not> run g'" .
    then have after: "game_loop rest g' (Suc n) = Inr (g', Suc n)"
      by (rule game_loop_stopped)
    then have "run g \<longrightarrow> game_loop (inp # rest) g n = Inr (g', Suc n)"
      using f by simp
    with stopped after show "\<not> run g'
        \<and> game_loop rest g' (Suc n) = Inr (g', Suc n)
        \<and> (run g \<longrightarrow> game_loop (inp # rest) g n = Inr (g', Suc n))"
      by blast
  qed
  from init total stop show ?thesis by blast
qed

theorem C8_win_stops_loop_witness:
  "wf_table (agent (initial_game\<lparr>player := (Tank 5 9 True)\<lparr>bullets := [(5, 1)]\<rparr>, player_pts := 9\<rparr>))
   \<and> run (initial_game\<lparr>player := (Tank 5 9 True)\<lparr>bullets := [(5, 1)]\<rparr>, player_pts := 9\<rparr>)
   \<and> (\<exists>g'. frame (quiet_input False 0 (1 / 2) 0)
               (initial_game\<lparr>player := (Tank 5 9 True)\<lparr>bullets := [(5, 1)]\<rparr>, player_pts := 9\<rparr>)
             = Inr g'
          \<and> player_pts g' = 10 \<and> \<not> run g'
          \<and> game_loop [quiet_input False 0 (1 / 2) 0, quiet_input False 0 (1 / 2) 0,
                        quiet_input False 0 (1 / 2) 0]
               (initial_game\<lparr>player := (Tank 5 9 True)\<lparr>bullets := [(5, 1)]\<rparr>, player_pts := 9\<rparr>) 0
             = Inr (g', 1))"
proof -
  let ?g = "initial_game\<lparr>player := (Tank 5 9 True)\<lparr>bullets := [(5, 1)]\<rparr>, player_pts := 9\<rparr>"
  let ?i = "quiet_input False 0 (1 / 2) 0"
  have wf: "wf_table (agent ?g)"
    by (simp add: initial_game_def wf_table_empty)
  have r: "run ?g"
    by (simp add: initial_game_def)
  from C8_win_stops_loop [of ?g ?i] wf obtain g' where f: "frame ?i ?g = Inr g'"
    by blast
  have "player_pts (projr (frame ?i ?g)) = 10"
    by (simp add: frame_eval)
  with f have pts: "player_pts g' = 10" by simp
  from C8_win_stops_loop [of ?g ?i g' "[?i, ?i]" 0] f pts r
  have "\<not> run g'" and "game_loop [?i, ?i, ?i] ?g 0 = Inr (g', 1)"
    by simp_all
  with wf r f pts show ?thesis by blast
qed

end
